theory Spec2Isabelle
  imports Complex_Main
begin

section \<open>JavaScript strings\<close>

text \<open>
  A JavaScript string is a sequence of UTF-16 code units. A code unit is modelled as a
  natural number (every 16-bit value is one), so that the characters produced by a
  \<^verbatim>\<open>\uXXXX\<close> escape and the non-ASCII members of the regular expression class
  \<^verbatim>\<open>\s\<close> are all there. \<open>js\<close> turns an ASCII literal into its code units.
\<close>

type_synonym jsstring = "nat list"

definition js :: "string \<Rightarrow> jsstring" where
  "js s = map of_char s"

abbreviation (input) DQUOTE :: nat where "DQUOTE \<equiv> 0x22"
abbreviation (input) COMMA :: nat where "COMMA \<equiv> 0x2C"
abbreviation (input) MINUS :: nat where "MINUS \<equiv> 0x2D"
abbreviation (input) COLON :: nat where "COLON \<equiv> 0x3A"
abbreviation (input) LBRACKET :: nat where "LBRACKET \<equiv> 0x5B"
abbreviation (input) BACKSLASH :: nat where "BACKSLASH \<equiv> 0x5C"
abbreviation (input) RBRACKET :: nat where "RBRACKET \<equiv> 0x5D"
abbreviation (input) LBRACE :: nat where "LBRACE \<equiv> 0x7B"
abbreviation (input) RBRACE :: nat where "RBRACE \<equiv> 0x7D"

text \<open>\<open>strip_prefix l s\<close>: the input left after the literal \<open>l\<close>, when \<open>s\<close> starts with it.\<close>

definition strip_prefix :: "jsstring \<Rightarrow> jsstring \<Rightarrow> jsstring option" where
  "strip_prefix l s = (if take (length l) s = l then Some (drop (length l) s) else None)"

definition is_digit :: "nat \<Rightarrow> bool" where
  "is_digit c \<longleftrightarrow> 0x30 \<le> c \<and> c \<le> 0x39"

section \<open>The data model\<close>

text \<open>
  \<^verbatim>\<open>export type Chord = string | null;\<close>
  \<^verbatim>\<open>export interface Progression { key: string; chords: Chord[]; }\<close>
  The value \<^verbatim>\<open>null\<close> of a slot is \<open>None\<close>.
\<close>

type_synonym Chord = "jsstring option"

record Progression =
  key :: jsstring
  chords :: "Chord list"

text \<open>The values \<^verbatim>\<open>JSON.parse\<close> returns. A number keeps its lexeme.\<close>

datatype json =
    JNull
  | JBool bool
  | JNumber jsstring
  | JString jsstring
  | JArray "json list"
  | JObject "(jsstring \<times> json) list"

text \<open>
  The value of a \<^verbatim>\<open>.length\<close> property read: \<^verbatim>\<open>undefined\<close>, the length of an array
  or of a string, or the member \<^verbatim>\<open>"length"\<close> of a parsed object.
\<close>

datatype lenval = LUndefined | LNat nat | LJson json

text \<open>
  What the code throws, by message:
  \<^item> \<open>InvalidPosition p m\<close>: \<^verbatim>\<open>Invalid position: p. Must be between 0 and m\<close>;
  \<^item> \<open>InvalidFormat\<close>: \<^verbatim>\<open>Invalid JSON response format\<close>;
  \<^item> \<open>InvalidNumber n\<close>: \<^verbatim>\<open>Invalid number of chord suggestions: n\<close>;
  \<^item> \<open>InvalidChord c\<close>: \<^verbatim>\<open>Invalid chord suggestion: c\<close>;
  \<^item> \<open>JSONSyntaxError\<close>: the \<^verbatim>\<open>SyntaxError\<close> of \<^verbatim>\<open>JSON.parse\<close>;
  \<^item> \<open>TypeError\<close>: a property read on \<^verbatim>\<open>null\<close> or \<^verbatim>\<open>undefined\<close>, a call of a value
    that is no function, an iteration over a value that is not iterable;
  \<^item> \<open>GenerationError m\<close>: whatever the language-model client throws.
\<close>

datatype error =
    InvalidPosition int int
  | InvalidFormat
  | InvalidNumber lenval
  | InvalidChord jsstring
  | JSONSyntaxError
  | TypeError
  | GenerationError jsstring

section \<open>The progression store\<close>

text \<open>
  The builder's only field is the progression, so the progression is the state. A
  method that returns nothing maps the state to the outcome (\<open>Inl\<close> the error thrown)
  and the state it leaves behind. Positions are numbers used as array indices: integers.
\<close>

definition NUM_SUGGESTIONS :: nat where
  "NUM_SUGGESTIONS = 12"


definition setKey :: "jsstring \<Rightarrow> Progression \<Rightarrow> (error + unit) \<times> Progression" where
  "setKey k p = (Inr (), p\<lparr>key := k\<rparr>)"

definition validatePosition :: "Progression \<Rightarrow> int \<Rightarrow> error + unit" where
  "validatePosition p position =
     (if position < 0 \<or> position \<ge> int (length (chords p))
      then Inl (InvalidPosition position (int (length (chords p)) - 1))
      else Inr ())"

text \<open>\<^verbatim>\<open>splice(position, 0, null)\<close> and \<^verbatim>\<open>splice(position, 1)\<close>, for an index in range.\<close>

definition splice_insert :: "nat \<Rightarrow> 'a \<Rightarrow> 'a list \<Rightarrow> 'a list" where
  "splice_insert i x xs = take i xs @ [x] @ drop i xs"

definition splice_delete :: "nat \<Rightarrow> 'a list \<Rightarrow> 'a list" where
  "splice_delete i xs = take i xs @ drop (Suc i) xs"

definition addSlot :: "int option \<Rightarrow> Progression \<Rightarrow> (error + unit) \<times> Progression" where
  "addSlot position p =
     (case position of
        None \<Rightarrow> (Inr (), p\<lparr>chords := chords p @ [None]\<rparr>)
      | Some pos \<Rightarrow>
          (case validatePosition p pos of
             Inl e \<Rightarrow> (Inl e, p)
           | Inr _ \<Rightarrow> (Inr (), p\<lparr>chords := splice_insert (nat pos) None (chords p)\<rparr>)))"

definition addChord :: "int \<Rightarrow> jsstring \<Rightarrow> Progression \<Rightarrow> (error + unit) \<times> Progression" where
  "addChord position chord p =
     (case validatePosition p position of
        Inl e \<Rightarrow> (Inl e, p)
      | Inr _ \<Rightarrow> (Inr (), p\<lparr>chords := (chords p)[nat position := Some chord]\<rparr>))"

definition removeSlot :: "int \<Rightarrow> Progression \<Rightarrow> (error + unit) \<times> Progression" where
  "removeSlot position p =
     (case validatePosition p position of
        Inl e \<Rightarrow> (Inl e, p)
      | Inr _ \<Rightarrow> (Inr (), p\<lparr>chords := splice_delete (nat position) (chords p)\<rparr>))"

definition removeChord :: "int \<Rightarrow> Progression \<Rightarrow> (error + unit) \<times> Progression" where
  "removeChord position p =
     (case validatePosition p position of
        Inl e \<Rightarrow> (Inl e, p)
      | Inr _ \<Rightarrow> (Inr (), p\<lparr>chords := (chords p)[nat position := None]\<rparr>))"

section \<open>The chord grammar\<close>

text \<open>
  \<^verbatim>\<open>CHORD_PATTERN\<close> is anchored at both ends and has neither look-around nor
  back-reference, so \<^verbatim>\<open>chord.match(CHORD_PATTERN)\<close> is non-null exactly when the whole
  string belongs to the language of the expression. Membership is decided with
  derivatives of the expression.
\<close>

datatype rexp =
    RNone
  | REps
  | RCls jsstring
  | RSeq rexp rexp
  | RAlt rexp rexp
  | RStar rexp

fun nullable :: "rexp \<Rightarrow> bool" where
  "nullable RNone = False"
| "nullable REps = True"
| "nullable (RCls cs) = False"
| "nullable (RSeq r s) = (nullable r \<and> nullable s)"
| "nullable (RAlt r s) = (nullable r \<or> nullable s)"
| "nullable (RStar r) = True"

fun deriv :: "nat \<Rightarrow> rexp \<Rightarrow> rexp" where
  "deriv c RNone = RNone"
| "deriv c REps = RNone"
| "deriv c (RCls cs) = (if c \<in> set cs then REps else RNone)"
| "deriv c (RSeq r s) =
     (if nullable r then RAlt (RSeq (deriv c r) s) (deriv c s) else RSeq (deriv c r) s)"
| "deriv c (RAlt r s) = RAlt (deriv c r) (deriv c s)"
| "deriv c (RStar r) = RSeq (deriv c r) (RStar r)"

definition re_matches :: "rexp \<Rightarrow> jsstring \<Rightarrow> bool" where
  "re_matches r s = nullable (foldl (\<lambda>q c. deriv c q) r s)"

text \<open>The operators of the pattern: \<^verbatim>\<open>x?\<close>, \<^verbatim>\<open>x+\<close>, a literal, a sequence, an alternation.\<close>

definition ROpt :: "rexp \<Rightarrow> rexp" where
  "ROpt r = RAlt r REps"

definition RPlus :: "rexp \<Rightarrow> rexp" where
  "RPlus r = RSeq r (RStar r)"

definition RLit :: "string \<Rightarrow> rexp" where
  "RLit s = foldr (\<lambda>c r. RSeq (RCls [of_char c]) r) s REps"

definition RSeqs :: "rexp list \<Rightarrow> rexp" where
  "RSeqs rs = foldr RSeq rs REps"

definition RAlts :: "rexp list \<Rightarrow> rexp" where
  "RAlts rs = foldr RAlt rs RNone"

definition RDigit :: rexp where
  "RDigit = RCls (js ''0123456789'')"

text \<open>
  \<^verbatim>\<open>/^([A-G][#b]?)(?:maj7?|M7?|min7?|m7?|dim7?|aug7?)?(\d+)?\<close>
  \<^verbatim>\<open>((?:sus\d+|add\d+|b\d+|#\d+)*)?(\/[A-G][#b]?)?$/\<close>
\<close>

definition CHORD_PATTERN :: rexp where
  "CHORD_PATTERN = RSeqs
     [RSeq (RCls (js ''ABCDEFG'')) (ROpt (RCls (js ''#b''))),
      ROpt (RAlts
        [RSeq (RLit ''maj'') (ROpt (RLit ''7'')),
         RSeq (RLit ''M'') (ROpt (RLit ''7'')),
         RSeq (RLit ''min'') (ROpt (RLit ''7'')),
         RSeq (RLit ''m'') (ROpt (RLit ''7'')),
         RSeq (RLit ''dim'') (ROpt (RLit ''7'')),
         RSeq (RLit ''aug'') (ROpt (RLit ''7''))]),
      ROpt (RPlus RDigit),
      ROpt (RStar (RAlts
        [RSeq (RLit ''sus'') (RPlus RDigit),
         RSeq (RLit ''add'') (RPlus RDigit),
         RSeq (RLit ''b'') (RPlus RDigit),
         RSeq (RLit ''#'') (RPlus RDigit)])),
      ROpt (RSeqs [RLit ''/'', RCls (js ''ABCDEFG''), ROpt (RCls (js ''#b''))])]"

section \<open>Locating the object in the response\<close>

text \<open>
  \<^verbatim>\<open>text.match(/\{\s*"chordSuggestions"\s*:\s*\[[\s\S]*?\]\s*\}/)\<close>

  \<open>is_space\<close> is the class \<^verbatim>\<open>\s\<close> of ECMAScript: the white space and line terminator code
  points.
\<close>

definition is_space :: "nat \<Rightarrow> bool" where
  "is_space c \<longleftrightarrow>
     c \<in> {0x09, 0x0A, 0x0B, 0x0C, 0x0D, 0x20, 0xA0, 0x1680, 0x2028, 0x2029, 0x202F,
          0x205F, 0x3000, 0xFEFF}
     \<or> (0x2000 \<le> c \<and> c \<le> 0x200A)"

definition skip_space :: "jsstring \<Rightarrow> jsstring" where
  "skip_space s = dropWhile is_space s"

text \<open>
  One character, then the input after it. A greedy \<^verbatim>\<open>\s*\<close> followed by a
  character that is no white space has one way to match: giving a white space back
  leaves a white space where that character is wanted.
\<close>

definition expect :: "nat \<Rightarrow> jsstring \<Rightarrow> jsstring option" where
  "expect c s = (case s of [] \<Rightarrow> None | d # r \<Rightarrow> if d = c then Some r else None)"

text \<open>\<^verbatim>\<open>\{\s*"chordSuggestions"\s*:\s*\[\<close> at the start of the input: what follows it.\<close>

definition re_open :: "jsstring \<Rightarrow> jsstring option" where
  "re_open s =
     (case expect LBRACE s of None \<Rightarrow> None
      | Some r1 \<Rightarrow>
     (case strip_prefix (DQUOTE # js ''chordSuggestions'' @ [DQUOTE]) (skip_space r1) of None \<Rightarrow> None
      | Some r2 \<Rightarrow>
     (case expect COLON (skip_space r2) of None \<Rightarrow> None
      | Some r3 \<Rightarrow> expect LBRACKET (skip_space r3))))"

text \<open>\<^verbatim>\<open>\]\s*\}\<close> at the start of the input: what follows it.\<close>

definition re_close :: "jsstring \<Rightarrow> jsstring option" where
  "re_close s =
     (case expect RBRACKET s of None \<Rightarrow> None
      | Some r \<Rightarrow> expect RBRACE (skip_space r))"

text \<open>
  \<^verbatim>\<open>[\s\S]*?\]\s*\}\<close>: the lazy star takes as few characters (any at all) as lets the
  rest match, so the closing part is tried at each position in turn.
\<close>

fun re_lazy :: "jsstring \<Rightarrow> jsstring option" where
  "re_lazy [] = None"
| "re_lazy (c # r) =
     (case re_close (c # r) of Some t \<Rightarrow> Some t | None \<Rightarrow> re_lazy r)"

text \<open>The whole expression at the start of the input: what follows the match.\<close>

definition re_at :: "jsstring \<Rightarrow> jsstring option" where
  "re_at s = (case re_open s of None \<Rightarrow> None | Some r \<Rightarrow> re_lazy r)"

text \<open>
  \<^verbatim>\<open>match\<close> without the \<^verbatim>\<open>g\<close> flag tries each start position from the left;
  \<^verbatim>\<open>match[0]\<close> is the matched substring.
\<close>

fun regex_match :: "jsstring \<Rightarrow> jsstring option" where
  "regex_match [] = None"
| "regex_match (c # r) =
     (case re_at (c # r) of
        Some t \<Rightarrow> Some (take (length (c # r) - length t) (c # r))
      | None \<Rightarrow> regex_match r)"

section \<open>\<^verbatim>\<open>JSON.parse\<close>\<close>

text \<open>
  The grammar of ECMA-404 as \<^verbatim>\<open>JSON.parse\<close> reads it: white space is space, tab, line
  feed and carriage return only; a string holds no unescaped control character; a
  number has no leading zero; no trailing comma. \<open>None\<close> is the \<^verbatim>\<open>SyntaxError\<close>.
\<close>

definition is_json_ws :: "nat \<Rightarrow> bool" where
  "is_json_ws c \<longleftrightarrow> c = 0x20 \<or> c = 0x09 \<or> c = 0x0A \<or> c = 0x0D"

definition skip_json_ws :: "jsstring \<Rightarrow> jsstring" where
  "skip_json_ws s = dropWhile is_json_ws s"

definition hex_val :: "nat \<Rightarrow> nat option" where
  "hex_val c =
     (if 0x30 \<le> c \<and> c \<le> 0x39 then Some (c - 0x30)
      else if 0x41 \<le> c \<and> c \<le> 0x46 then Some (c - 0x41 + 10)
      else if 0x61 \<le> c \<and> c \<le> 0x66 then Some (c - 0x61 + 10)
      else None)"

definition hex4 :: "nat \<Rightarrow> nat \<Rightarrow> nat \<Rightarrow> nat \<Rightarrow> nat option" where
  "hex4 a b c d =
     (case (hex_val a, hex_val b, hex_val c, hex_val d) of
        (Some w, Some x, Some y, Some z) \<Rightarrow> Some (((w * 16 + x) * 16 + y) * 16 + z)
      | _ \<Rightarrow> None)"

text \<open>The character a one-letter escape stands for: \<^verbatim>\<open>\" \\ \/ \b \f \n \r \t\<close>.\<close>

definition escape_char :: "nat \<Rightarrow> nat option" where
  "escape_char e =
     (if e = DQUOTE then Some DQUOTE
      else if e = BACKSLASH then Some BACKSLASH
      else if e = 0x2F then Some 0x2F
      else if e = 0x62 then Some 0x08
      else if e = 0x66 then Some 0x0C
      else if e = 0x6E then Some 0x0A
      else if e = 0x72 then Some 0x0D
      else if e = 0x74 then Some 0x09
      else None)"

definition cons_char :: "nat \<Rightarrow> (jsstring \<times> jsstring) option \<Rightarrow> (jsstring \<times> jsstring) option" where
  "cons_char c res = (case res of None \<Rightarrow> None | Some (str, t) \<Rightarrow> Some (c # str, t))"

text \<open>
  A string, read from after its opening quote: the decoded characters and the input
  after the closing quote.
\<close>

fun json_chars :: "jsstring \<Rightarrow> (jsstring \<times> jsstring) option" where
  "json_chars [] = None"
| "json_chars (c # r) =
     (if c = DQUOTE then Some ([], r)
      else if c = BACKSLASH then
        (case r of
           [] \<Rightarrow> None
         | e # r1 \<Rightarrow>
             if e = 0x75 then
               (case r1 of
                  h1 # h2 # h3 # h4 # r2 \<Rightarrow>
                    (case hex4 h1 h2 h3 h4 of
                       None \<Rightarrow> None
                     | Some u \<Rightarrow> cons_char u (json_chars r2))
                | _ \<Rightarrow> None)
             else
               (case escape_char e of
                  None \<Rightarrow> None
                | Some x \<Rightarrow> cons_char x (json_chars r1)))
      else if c < 0x20 then None
      else cons_char c (json_chars r))"

text \<open>A run of one or more digits: the digits and the input after them.\<close>

definition json_digits :: "jsstring \<Rightarrow> (jsstring \<times> jsstring) option" where
  "json_digits s =
     (if takeWhile is_digit s = [] then None
      else Some (takeWhile is_digit s, dropWhile is_digit s))"

text \<open>The optional fraction \<^verbatim>\<open>.digits\<close> and the optional exponent \<^verbatim>\<open>e[+-]digits\<close>.\<close>

definition json_frac :: "jsstring \<Rightarrow> (jsstring \<times> jsstring) option" where
  "json_frac s =
     (case s of
        [] \<Rightarrow> Some ([], s)
      | c # r \<Rightarrow>
          if c = 0x2E then
            (case json_digits r of None \<Rightarrow> None | Some (ds, t) \<Rightarrow> Some (c # ds, t))
          else Some ([], s))"

definition json_exp :: "jsstring \<Rightarrow> (jsstring \<times> jsstring) option" where
  "json_exp s =
     (case s of
        [] \<Rightarrow> Some ([], s)
      | c # r \<Rightarrow>
          if c = 0x65 \<or> c = 0x45 then
            (case r of
               [] \<Rightarrow> None
             | g # r1 \<Rightarrow>
                 if g = 0x2B \<or> g = MINUS then
                   (case json_digits r1 of None \<Rightarrow> None | Some (ds, t) \<Rightarrow> Some (c # g # ds, t))
                 else
                   (case json_digits r of None \<Rightarrow> None | Some (ds, t) \<Rightarrow> Some (c # ds, t)))
          else Some ([], s))"

text \<open>A number, read from after its optional minus sign: the lexeme and the rest.\<close>

definition json_unsigned :: "jsstring \<Rightarrow> (jsstring \<times> jsstring) option" where
  "json_unsigned s =
     (case s of
        [] \<Rightarrow> None
      | d # r \<Rightarrow>
          if \<not> is_digit d then None
          else
            (let ip = (if d = 0x30 then [d] else d # takeWhile is_digit r);
                 s1 = (if d = 0x30 then r else dropWhile is_digit r)
             in case json_frac s1 of
                  None \<Rightarrow> None
                | Some (fp, s2) \<Rightarrow>
                    (case json_exp s2 of
                       None \<Rightarrow> None
                     | Some (ep, s3) \<Rightarrow> Some (ip @ fp @ ep, s3))))"

definition json_number :: "jsstring \<Rightarrow> (jsstring \<times> jsstring) option" where
  "json_number s =
     (case s of
        [] \<Rightarrow> None
      | c # r \<Rightarrow>
          if c = MINUS then
            (case json_unsigned r of None \<Rightarrow> None | Some (lx, t) \<Rightarrow> Some (c # lx, t))
          else json_unsigned s)"

text \<open>
  The recursive descent over values, the elements of an array and the members of an
  object. The first argument bounds the number of nested calls; \<open>JSON_parse\<close> starts
  with two for each character and two more, and every second nested call has read a
  character, so the bound is never what stops it (\<open>JSON_parse_any_fuel\<close> below).

  \<open>json_value\<close> reads from the first character of the value; \<open>json_elements\<close> from the
  first character of an element, up to the closing bracket; \<open>json_members\<close> from the
  opening quote of a key, up to the closing brace.
\<close>

fun json_value :: "nat \<Rightarrow> jsstring \<Rightarrow> (json \<times> jsstring) option"
  and json_elements :: "nat \<Rightarrow> jsstring \<Rightarrow> (json list \<times> jsstring) option"
  and json_members :: "nat \<Rightarrow> jsstring \<Rightarrow> ((jsstring \<times> json) list \<times> jsstring) option"
where
  "json_value 0 s = None"
| "json_value (Suc n) [] = None"
| "json_value (Suc n) (c # r) =
     (if c = LBRACKET then
        (case skip_json_ws r of
           [] \<Rightarrow> None
         | d # r1 \<Rightarrow>
             if d = RBRACKET then Some (JArray [], r1)
             else (case json_elements n (d # r1) of
                     None \<Rightarrow> None
                   | Some (vs, t) \<Rightarrow> Some (JArray vs, t)))
      else if c = LBRACE then
        (case skip_json_ws r of
           [] \<Rightarrow> None
         | d # r1 \<Rightarrow>
             if d = RBRACE then Some (JObject [], r1)
             else (case json_members n (d # r1) of
                     None \<Rightarrow> None
                   | Some (ms, t) \<Rightarrow> Some (JObject ms, t)))
      else if c = DQUOTE then
        (case json_chars r of None \<Rightarrow> None | Some (str, t) \<Rightarrow> Some (JString str, t))
      else if c = MINUS \<or> is_digit c then
        (case json_number (c # r) of None \<Rightarrow> None | Some (lx, t) \<Rightarrow> Some (JNumber lx, t))
      else
        (case strip_prefix (js ''true'') (c # r) of
           Some t \<Rightarrow> Some (JBool True, t)
         | None \<Rightarrow>
        (case strip_prefix (js ''false'') (c # r) of
           Some t \<Rightarrow> Some (JBool False, t)
         | None \<Rightarrow>
        (case strip_prefix (js ''null'') (c # r) of
           Some t \<Rightarrow> Some (JNull, t)
         | None \<Rightarrow> None))))"
| "json_elements 0 s = None"
| "json_elements (Suc n) s =
     (case json_value n s of
        None \<Rightarrow> None
      | Some (v, r) \<Rightarrow>
          (case skip_json_ws r of
             [] \<Rightarrow> None
           | d # r1 \<Rightarrow>
               if d = RBRACKET then Some ([v], r1)
               else if d = COMMA then
                 (case json_elements n (skip_json_ws r1) of
                    None \<Rightarrow> None
                  | Some (vs, t) \<Rightarrow> Some (v # vs, t))
               else None))"
| "json_members 0 s = None"
| "json_members (Suc n) s =
     (case s of
        [] \<Rightarrow> None
      | q # r \<Rightarrow>
          if q \<noteq> DQUOTE then None
          else
            (case json_chars r of
               None \<Rightarrow> None
             | Some (k, r1) \<Rightarrow>
                 (case skip_json_ws r1 of
                    [] \<Rightarrow> None
                  | d # r2 \<Rightarrow>
                      if d \<noteq> COLON then None
                      else
                        (case json_value n (skip_json_ws r2) of
                           None \<Rightarrow> None
                         | Some (v, r3) \<Rightarrow>
                             (case skip_json_ws r3 of
                                [] \<Rightarrow> None
                              | e # r4 \<Rightarrow>
                                  if e = RBRACE then Some ([(k, v)], r4)
                                  else if e = COMMA then
                                    (case json_members n (skip_json_ws r4) of
                                       None \<Rightarrow> None
                                     | Some (ms, t) \<Rightarrow> Some ((k, v) # ms, t))
                                  else None)))))"

text \<open>One value with white space around it, and nothing else.\<close>

definition JSON_parse :: "jsstring \<Rightarrow> json option" where
  "JSON_parse s =
     (case json_value (2 * length s + 2) (skip_json_ws s) of
        None \<Rightarrow> None
      | Some (v, r) \<Rightarrow> if skip_json_ws r = [] then Some v else None)"

section \<open>Reading the parsed value\<close>

text \<open>
  The value of a number lexeme, exactly: the digits of the integer and fraction parts,
  scaled by the power of ten of the exponent.
\<close>

definition digits_val :: "jsstring \<Rightarrow> nat" where
  "digits_val ds = foldl (\<lambda>a d. 10 * a + (d - 0x30)) 0 ds"

definition exponent_val :: "jsstring \<Rightarrow> int" where
  "exponent_val s =
     (case s of
        [] \<Rightarrow> 0
      | e # r \<Rightarrow>
          (case r of
             [] \<Rightarrow> 0
           | g # ds \<Rightarrow>
               if g = MINUS then - int (digits_val ds)
               else if g = 0x2B then int (digits_val ds)
               else int (digits_val r)))"

definition unsigned_value :: "jsstring \<Rightarrow> rat" where
  "unsigned_value u =
     (let ip = takeWhile is_digit u;
          r1 = dropWhile is_digit u;
          fp = (case r1 of [] \<Rightarrow> [] | c # r \<Rightarrow> if c = 0x2E then takeWhile is_digit r else []);
          r2 = (case r1 of [] \<Rightarrow> [] | c # r \<Rightarrow> if c = 0x2E then dropWhile is_digit r else r1);
          e = exponent_val r2 - int (length fp);
          m = of_nat (digits_val (ip @ fp))
      in if e \<ge> 0 then m * 10 ^ nat e else m / 10 ^ nat (- e))"

definition number_value :: "jsstring \<Rightarrow> rat" where
  "number_value lx =
     (case lx of
        [] \<Rightarrow> 0
      | c # r \<Rightarrow> if c = MINUS then - unsigned_value r else unsigned_value lx)"

text \<open>
  \<^verbatim>\<open>chordSuggestions.length !== NUM_SUGGESTIONS\<close> is false for the number 12 only. The
  length of an array or a string is an integer. A parsed number is the double nearest
  to its lexeme's value (ties to even); the doubles next to 12 are \<open>12 - 1 / 2 ^ 49\<close> and
  \<open>12 + 1 / 2 ^ 49\<close>, and 12 has an even significand, so the lexemes read as 12 are those
  within \<open>1 / 2 ^ 50\<close> of it.
\<close>

definition is_NUM_SUGGESTIONS :: "lenval \<Rightarrow> bool" where
  "is_NUM_SUGGESTIONS l =
     (case l of
        LNat n \<Rightarrow> n = NUM_SUGGESTIONS
      | LJson (JNumber lx) \<Rightarrow>
          of_nat NUM_SUGGESTIONS - 1 / 2 ^ 50 \<le> number_value lx
          \<and> number_value lx \<le> of_nat NUM_SUGGESTIONS + 1 / 2 ^ 50
      | _ \<Rightarrow> False)"

text \<open>
  \<^verbatim>\<open>JSON.parse(match[0]).chordSuggestions\<close>: a property read throws on \<^verbatim>\<open>null\<close>; an
  object gives the member of that name (the last one, when the text repeats a key), or
  \<^verbatim>\<open>undefined\<close> (\<open>None\<close>); no other JSON value has such a property.
\<close>

definition get_chordSuggestions :: "json \<Rightarrow> error + json option" where
  "get_chordSuggestions v =
     (case v of
        JNull \<Rightarrow> Inl TypeError
      | JObject ms \<Rightarrow> Inr (map_of (rev ms) (js ''chordSuggestions''))
      | _ \<Rightarrow> Inr None)"

text \<open>
  \<^verbatim>\<open>chordSuggestions.length\<close>: the length of an array or of a string, the member
  \<^verbatim>\<open>"length"\<close> of an object, \<^verbatim>\<open>undefined\<close> on a number or a boolean. It throws on
  \<^verbatim>\<open>null\<close>.
\<close>

definition get_length :: "json \<Rightarrow> error + lenval" where
  "get_length v =
     (case v of
        JNull \<Rightarrow> Inl TypeError
      | JArray xs \<Rightarrow> Inr (LNat (length xs))
      | JString str \<Rightarrow> Inr (LNat (length str))
      | JObject ms \<Rightarrow>
          Inr (case map_of (rev ms) (js ''length'') of None \<Rightarrow> LUndefined | Some l \<Rightarrow> LJson l)
      | _ \<Rightarrow> Inr LUndefined)"

text \<open>
  \<^verbatim>\<open>for (const chord of chordSuggestions)\<close>: an array gives its elements, a string its
  code points (a surrogate pair is one), and nothing else that \<^verbatim>\<open>JSON.parse\<close> returns
  is iterable.
\<close>

fun code_points :: "jsstring \<Rightarrow> jsstring list" where
  "code_points [] = []"
| "code_points [c] = [[c]]"
| "code_points (c # d # r) =
     (if 0xD800 \<le> c \<and> c \<le> 0xDBFF \<and> 0xDC00 \<le> d \<and> d \<le> 0xDFFF
      then [c, d] # code_points r
      else [c] # code_points (d # r))"

definition iterate :: "json \<Rightarrow> error + json list" where
  "iterate v =
     (case v of
        JArray xs \<Rightarrow> Inr xs
      | JString str \<Rightarrow> Inr (map JString (code_points str))
      | _ \<Rightarrow> Inl TypeError)"

text \<open>
  The body of the loop: \<^verbatim>\<open>if (!chord.match(CHORD_PATTERN)) throw ...\<close>. Only a string
  has a method \<^verbatim>\<open>match\<close>; on any other JSON value the call throws a \<^verbatim>\<open>TypeError\<close>.
  \<open>None\<close>: the loop ran to its end.
\<close>

fun check_chords :: "json list \<Rightarrow> error option" where
  "check_chords [] = None"
| "check_chords (chord # rest) =
     (case chord of
        JString str \<Rightarrow>
          if \<not> re_matches CHORD_PATTERN str then Some (InvalidChord str)
          else check_chords rest
      | _ \<Rightarrow> Some TypeError)"

section \<open>The suggestion pipeline\<close>

text \<open>
  \<^verbatim>\<open>parseChordSuggestions(text)\<close>. It returns \<^verbatim>\<open>chordSuggestions\<close> itself, the parsed
  value. Reading \<^verbatim>\<open>.length\<close> of \<^verbatim>\<open>undefined\<close> throws.
\<close>

definition parseChordSuggestions :: "jsstring \<Rightarrow> error + json" where
  "parseChordSuggestions text =
     (case regex_match text of
        None \<Rightarrow> Inl InvalidFormat
      | Some m \<Rightarrow>
     (case JSON_parse m of
        None \<Rightarrow> Inl JSONSyntaxError
      | Some parsed \<Rightarrow>
     (case get_chordSuggestions parsed of
        Inl e \<Rightarrow> Inl e
      | Inr None \<Rightarrow> Inl TypeError
      | Inr (Some chordSuggestions) \<Rightarrow>
     (case get_length chordSuggestions of
        Inl e \<Rightarrow> Inl e
      | Inr l \<Rightarrow>
          if \<not> is_NUM_SUGGESTIONS l then Inl (InvalidNumber l)
          else
            (case iterate chordSuggestions of
               Inl e \<Rightarrow> Inl e
             | Inr elems \<Rightarrow>
                 (case check_chords elems of
                    Some e \<Rightarrow> Inl e
                  | None \<Rightarrow> Inr chordSuggestions))))))"


section \<open>Well-formed responses\<close>

text \<open>
  The response the prompt asks for, as a text: the object with the one key
  \<^verbatim>\<open>chordSuggestions\<close> and an array of string literals, with JSON white space \<open>w1\<close> to
  \<open>w4\<close> between its tokens and before and after each array entry. An entry is
  \<open>(white space, chord, white space)\<close>.
\<close>

definition quoted :: "jsstring \<Rightarrow> jsstring" where
  "quoted str = DQUOTE # str @ [DQUOTE]"

fun render_entries :: "(jsstring \<times> jsstring \<times> jsstring) list \<Rightarrow> jsstring" where
  "render_entries [] = []"
| "render_entries [(a, c, b)] = a @ quoted c @ b"
| "render_entries ((a, c, b) # e # es) = a @ quoted c @ b @ [COMMA] @ render_entries (e # es)"

definition render_response ::
  "jsstring \<Rightarrow> jsstring \<Rightarrow> jsstring \<Rightarrow> jsstring \<Rightarrow> (jsstring \<times> jsstring \<times> jsstring) list \<Rightarrow> jsstring"
where
  "render_response w1 w2 w3 w4 es =
     [LBRACE] @ w1 @ quoted (js ''chordSuggestions'') @ w2 @ [COLON] @ w3 @ [LBRACKET]
       @ render_entries es @ [RBRACKET] @ w4 @ [RBRACE]"

definition entry_chords :: "(jsstring \<times> jsstring \<times> jsstring) list \<Rightarrow> jsstring list" where
  "entry_chords es = map (\<lambda>(a, c, b). c) es"

definition json_space :: "jsstring \<Rightarrow> bool" where
  "json_space w = list_all is_json_ws w"

text \<open>
  A string that is its own JSON literal between quotes and cannot end the lazy scan:
  no quote, no backslash, no control character, no closing bracket.
\<close>

definition plain_char :: "nat \<Rightarrow> bool" where
  "plain_char c \<longleftrightarrow> 0x20 \<le> c \<and> c \<noteq> DQUOTE \<and> c \<noteq> BACKSLASH \<and> c \<noteq> RBRACKET"

definition plain_entries :: "(jsstring \<times> jsstring \<times> jsstring) list \<Rightarrow> bool" where
  "plain_entries es = list_all (\<lambda>(a, c, b). json_space a \<and> list_all plain_char c \<and> json_space b) es"

definition chord_entries :: "(jsstring \<times> jsstring \<times> jsstring) list \<Rightarrow> bool" where
  "chord_entries es =
     list_all (\<lambda>(a, c, b). json_space a \<and> re_matches CHORD_PATTERN c \<and> json_space b) es"

text \<open>
  The opening of the pattern matches at no position of the text \<open>pre\<close> that stands
  before \<open>rest\<close>.
\<close>

fun clear_before :: "jsstring \<Rightarrow> jsstring \<Rightarrow> bool" where
  "clear_before [] rest = True"
| "clear_before (c # pre) rest = (re_open (c # pre @ rest) = None \<and> clear_before pre rest)"

section \<open>Auxiliary notions for the proofs\<close>

text \<open>
  The characters an expression mentions, and an expression that visibly matches
  nothing: a character outside \<open>atoms r\<close> sends \<open>r\<close> to such an expression.
\<close>

fun atoms :: "rexp \<Rightarrow> nat set" where
  "atoms RNone = {}"
| "atoms REps = {}"
| "atoms (RCls cs) = set cs"
| "atoms (RSeq r s) = atoms r \<union> atoms s"
| "atoms (RAlt r s) = atoms r \<union> atoms s"
| "atoms (RStar r) = atoms r"

fun void :: "rexp \<Rightarrow> bool" where
  "void RNone = True"
| "void REps = False"
| "void (RCls cs) = False"
| "void (RSeq r s) = (void r \<or> void s)"
| "void (RAlt r s) = (void r \<and> void s)"
| "void (RStar r) = False"

text \<open>
  Twice the number of characters a parser has read: the nested calls it needs at most.
\<close>

definition spent :: "jsstring \<Rightarrow> jsstring \<Rightarrow> nat" where
  "spent s r = 2 * (length s - length r)"

text \<open>Sample data.\<close>

definition example_progression :: Progression where
  "example_progression =
     \<lparr>key = js ''A minor'', chords = [Some (js ''Am''), Some (js ''Dm''), None]\<rparr>"

definition example_chords :: "jsstring list" where
  "example_chords = map js [''C'', ''G'', ''Am'', ''F'', ''Dm'', ''Em'', ''G7'', ''Cmaj7'',
     ''Fmaj7'', ''Am7'', ''E7'', ''Bdim'']"

text \<open>Entries with no white space around them, and with a space before each.\<close>

definition compact :: "jsstring list \<Rightarrow> (jsstring \<times> jsstring \<times> jsstring) list" where
  "compact cs = map (\<lambda>c. ([], c, [])) cs"

definition spaced :: "jsstring list \<Rightarrow> (jsstring \<times> jsstring \<times> jsstring) list" where
  "spaced cs = map (\<lambda>c. ([0x20], c, [])) cs"

section \<open>The bound on nested calls is never what stops \<open>JSON_parse\<close>\<close>

text \<open>
  A parse that succeeds with some bound succeeds with every larger one, reads at least
  one character, and succeeds with twice the number of characters it reads. So the
  bound that \<open>JSON_parse\<close> starts with gives the result of any other.
\<close>

lemma bind_mono:
  assumes "(case f of None \<Rightarrow> None | Some (a, b) \<Rightarrow> F a b) = Some r"
    and "\<And>y. f = Some y \<Longrightarrow> g = Some y"
    and "\<And>a b. F a b = Some r \<Longrightarrow> G a b = Some r"
  shows "(case g of None \<Rightarrow> None | Some (a, b) \<Rightarrow> G a b) = Some r"
  using assms by (cases f) auto

lemma json_value_mono_step:
  assumes e: "\<And>s r. json_elements k s = Some r \<Longrightarrow> json_elements j s = Some r"
    and ms: "\<And>s r. json_members k s = Some r \<Longrightarrow> json_members j s = Some r"
    and a: "json_value (Suc k) s = Some r"
  shows "json_value (Suc j) s = Some r"
proof -
  obtain c t where s: "s = c # t"
    using a by (cases s) auto
  consider "c = LBRACKET" | "c = LBRACE" | "c \<noteq> LBRACKET" "c \<noteq> LBRACE"
    by blast
  then show ?thesis
  proof cases
    case 1
    show ?thesis
    proof (cases "skip_json_ws t")
      case Nil
      then show ?thesis using a 1 s by simp
    next
      case (Cons d r1)
      show ?thesis
      proof (cases "d = RBRACKET")
        case True
        then show ?thesis using a 1 s Cons by simp
      next
        case False
        have "(case json_elements k (d # r1) of None \<Rightarrow> None | Some (vs, t) \<Rightarrow> Some (JArray vs, t)) = Some r"
          using a 1 s Cons False by simp
        then have "(case json_elements j (d # r1) of None \<Rightarrow> None | Some (vs, t) \<Rightarrow> Some (JArray vs, t)) = Some r"
          by (rule bind_mono) (auto intro: e)
        then show ?thesis using 1 s Cons False by simp
      qed
    qed
  next
    case 2
    show ?thesis
    proof (cases "skip_json_ws t")
      case Nil
      then show ?thesis using a 2 s by simp
    next
      case (Cons d r1)
      show ?thesis
      proof (cases "d = RBRACE")
        case True
        then show ?thesis using a 2 s Cons by simp
      next
        case False
        have "(case json_members k (d # r1) of None \<Rightarrow> None | Some (vs, t) \<Rightarrow> Some (JObject vs, t)) = Some r"
          using a 2 s Cons False by simp
        then have "(case json_members j (d # r1) of None \<Rightarrow> None | Some (vs, t) \<Rightarrow> Some (JObject vs, t)) = Some r"
          by (rule bind_mono) (auto intro: ms)
        then show ?thesis using 2 s Cons False by simp
      qed
    qed
  next
    case 3
    then have "json_value (Suc j) (c # t) = json_value (Suc k) (c # t)"
      by simp
    then show ?thesis using a s by simp
  qed
qed

lemma json_elements_mono_step:
  assumes v: "\<And>s r. json_value k s = Some r \<Longrightarrow> json_value j s = Some r"
    and e: "\<And>s r. json_elements k s = Some r \<Longrightarrow> json_elements j s = Some r"
    and a: "json_elements (Suc k) s = Some r"
  shows "json_elements (Suc j) s = Some r"
proof -
  have "(case json_value k s of None \<Rightarrow> None
      | Some (v, r) \<Rightarrow>
          (case skip_json_ws r of
             [] \<Rightarrow> None
           | d # r1 \<Rightarrow>
               if d = RBRACKET then Some ([v], r1)
               else if d = COMMA then
                 (case json_elements k (skip_json_ws r1) of
                    None \<Rightarrow> None
                  | Some (vs, t) \<Rightarrow> Some (v # vs, t))
               else None)) = Some r"
    using a by simp
  then have "(case json_value j s of None \<Rightarrow> None
      | Some (v, r) \<Rightarrow>
          (case skip_json_ws r of
             [] \<Rightarrow> None
           | d # r1 \<Rightarrow>
               if d = RBRACKET then Some ([v], r1)
               else if d = COMMA then
                 (case json_elements j (skip_json_ws r1) of
                    None \<Rightarrow> None
                  | Some (vs, t) \<Rightarrow> Some (v # vs, t))
               else None)) = Some r"
  proof (rule bind_mono)
    fix x b
    assume *: "(case skip_json_ws b of
             [] \<Rightarrow> None
           | d # r1 \<Rightarrow>
               if d = RBRACKET then Some ([x], r1)
               else if d = COMMA then
                 (case json_elements k (skip_json_ws r1) of
                    None \<Rightarrow> None
                  | Some (vs, t) \<Rightarrow> Some (x # vs, t))
               else None) = Some r"
    show "(case skip_json_ws b of
             [] \<Rightarrow> None
           | d # r1 \<Rightarrow>
               if d = RBRACKET then Some ([x], r1)
               else if d = COMMA then
                 (case json_elements j (skip_json_ws r1) of
                    None \<Rightarrow> None
                  | Some (vs, t) \<Rightarrow> Some (x # vs, t))
               else None) = Some r"
    proof (cases "skip_json_ws b")
      case Nil
      then show ?thesis using * by simp
    next
      case (Cons d r1)
      show ?thesis
      proof (cases "d = COMMA")
        case True
        have "(case json_elements k (skip_json_ws r1) of
                    None \<Rightarrow> None
                  | Some (vs, t) \<Rightarrow> Some (x # vs, t)) = Some r"
          using * Cons True by simp
        then have "(case json_elements j (skip_json_ws r1) of
                    None \<Rightarrow> None
                  | Some (vs, t) \<Rightarrow> Some (x # vs, t)) = Some r"
          by (rule bind_mono) (auto intro: e)
        then show ?thesis using Cons True by simp
      next
        case False
        then show ?thesis using * Cons by (simp split: if_splits)
      qed
    qed
  qed (auto intro: v)
  then show ?thesis by simp
qed


lemma json_members_mono_step:
  assumes v: "\<And>s r. json_value k s = Some r \<Longrightarrow> json_value j s = Some r"
    and ms: "\<And>s r. json_members k s = Some r \<Longrightarrow> json_members j s = Some r"
    and a: "json_members (Suc k) s = Some r"
  shows "json_members (Suc j) s = Some r"
proof -
  obtain q t where s: "s = q # t" and q: "q = DQUOTE"
    using a by (cases s) (auto split: if_splits)
  obtain key' r1 where chars: "json_chars t = Some (key', r1)"
    using a s q by (cases "json_chars t") auto
  obtain d r2 where skip1: "skip_json_ws r1 = d # r2" and d: "d = COLON"
    using a s q chars by (cases "skip_json_ws r1") (auto split: if_splits)
  have "(case json_value k (skip_json_ws r2) of
           None \<Rightarrow> None
         | Some (v, r3) \<Rightarrow>
             (case skip_json_ws r3 of
                [] \<Rightarrow> None
              | e # r4 \<Rightarrow>
                  if e = RBRACE then Some ([(key', v)], r4)
                  else if e = COMMA then
                    (case json_members k (skip_json_ws r4) of
                       None \<Rightarrow> None
                     | Some (ms, t) \<Rightarrow> Some ((key', v) # ms, t))
                  else None)) = Some r"
    using a s q chars skip1 d by simp
  then have "(case json_value j (skip_json_ws r2) of
           None \<Rightarrow> None
         | Some (v, r3) \<Rightarrow>
             (case skip_json_ws r3 of
                [] \<Rightarrow> None
              | e # r4 \<Rightarrow>
                  if e = RBRACE then Some ([(key', v)], r4)
                  else if e = COMMA then
                    (case json_members j (skip_json_ws r4) of
                       None \<Rightarrow> None
                     | Some (ms, t) \<Rightarrow> Some ((key', v) # ms, t))
                  else None)) = Some r"
  proof (rule bind_mono)
    fix x b
    assume *: "(case skip_json_ws b of
                [] \<Rightarrow> None
              | e # r4 \<Rightarrow>
                  if e = RBRACE then Some ([(key', x)], r4)
                  else if e = COMMA then
                    (case json_members k (skip_json_ws r4) of
                       None \<Rightarrow> None
                     | Some (ms, t) \<Rightarrow> Some ((key', x) # ms, t))
                  else None) = Some r"
    show "(case skip_json_ws b of
                [] \<Rightarrow> None
              | e # r4 \<Rightarrow>
                  if e = RBRACE then Some ([(key', x)], r4)
                  else if e = COMMA then
                    (case json_members j (skip_json_ws r4) of
                       None \<Rightarrow> None
                     | Some (ms, t) \<Rightarrow> Some ((key', x) # ms, t))
                  else None) = Some r"
    proof (cases "skip_json_ws b")
      case Nil
      then show ?thesis using * by simp
    next
      case (Cons e r4)
      show ?thesis
      proof (cases "e = COMMA")
        case True
        have "(case json_members k (skip_json_ws r4) of
                       None \<Rightarrow> None
                     | Some (ms, t) \<Rightarrow> Some ((key', x) # ms, t)) = Some r"
          using * Cons True by simp
        then have "(case json_members j (skip_json_ws r4) of
                       None \<Rightarrow> None
                     | Some (ms, t) \<Rightarrow> Some ((key', x) # ms, t)) = Some r"
          by (rule bind_mono) (auto intro: ms)
        then show ?thesis using Cons True by simp
      next
        case False
        then show ?thesis using * Cons by (simp split: if_splits)
      qed
    qed
  qed (auto intro: v)
  then show ?thesis
    using s q chars skip1 d by simp
qed

lemma json_fuel_mono_all:
  "(\<forall>s r. json_value n s = Some r \<longrightarrow> json_value (n + i) s = Some r)
   \<and> (\<forall>s r. json_elements n s = Some r \<longrightarrow> json_elements (n + i) s = Some r)
   \<and> (\<forall>s r. json_members n s = Some r \<longrightarrow> json_members (n + i) s = Some r)"
proof (induction n)
  case 0
  then show ?case by simp
next
  case (Suc k)
  have "json_value (Suc (k + i)) s = Some r" if "json_value (Suc k) s = Some r" for s r
    using Suc that by (intro json_value_mono_step [of k "k + i"]) blast+
  moreover have "json_elements (Suc (k + i)) s = Some r" if "json_elements (Suc k) s = Some r" for s r
    using Suc that by (intro json_elements_mono_step [of k "k + i"]) blast+
  moreover have "json_members (Suc (k + i)) s = Some r" if "json_members (Suc k) s = Some r" for s r
    using Suc that by (intro json_members_mono_step [of k "k + i"]) blast+
  ultimately show ?case
    by simp
qed

lemma json_value_mono: "json_value n s = Some r \<Longrightarrow> n \<le> m \<Longrightarrow> json_value m s = Some r"
  using json_fuel_mono_all [of n "m - n"] by (cases r) auto

lemma json_elements_mono: "json_elements n s = Some r \<Longrightarrow> n \<le> m \<Longrightarrow> json_elements m s = Some r"
  using json_fuel_mono_all [of n "m - n"] by (cases r) auto

lemma json_members_mono: "json_members n s = Some r \<Longrightarrow> n \<le> m \<Longrightarrow> json_members m s = Some r"
  using json_fuel_mono_all [of n "m - n"] by (cases r) auto

lemma length_skip_json_ws: "length (skip_json_ws s) \<le> length s"
  by (simp add: skip_json_ws_def length_dropWhile_le)

lemma skip_json_ws_Cons_length: "skip_json_ws s = d # r \<Longrightarrow> length r < length s"
  using length_skip_json_ws [of s] by simp

lemma cons_char_length:
  "cons_char c res = Some (str, r) \<Longrightarrow> \<exists>str'. res = Some (str', r)"
  by (cases res) (auto simp: cons_char_def)

lemma json_chars_length: "json_chars t = Some (str, r) \<Longrightarrow> length r < length t"
proof (induction "length t" arbitrary: t str rule: less_induct)
  case less
  obtain c r' where t: "t = c # r'"
    using less.prems by (cases t) auto
  show ?case
  proof (cases "c = DQUOTE")
    case True
    then show ?thesis using less.prems t by simp
  next
    case q: False
    show ?thesis
    proof (cases "c = BACKSLASH")
      case True
      then obtain e r1 where r': "r' = e # r1"
        using less.prems t by (cases r') auto
      show ?thesis
      proof (cases "e = 0x75")
        case u: True
        then obtain h1 h2 h3 h4 r2 where r1: "r1 = h1 # h2 # h3 # h4 # r2"
          using less.prems t True r' by (auto split: list.splits)
        then obtain x where x: "hex4 h1 h2 h3 h4 = Some x"
          using less.prems t True r' u by (auto split: option.splits)
        then obtain str' where "json_chars r2 = Some (str', r)"
          using less.prems t True r' u r1 by (auto dest: cons_char_length)
        then have "length r < length r2"
          by (rule less.hyps [rotated]) (simp add: t r' r1)
        then show ?thesis by (simp add: t r' r1)
      next
        case nu: False
        then obtain x where x: "escape_char e = Some x"
          using less.prems t True r' by (auto split: option.splits)
        then obtain str' where "json_chars r1 = Some (str', r)"
          using less.prems t True r' nu by (auto dest: cons_char_length)
        then have "length r < length r1"
          by (rule less.hyps [rotated]) (simp add: t r')
        then show ?thesis by (simp add: t r')
      qed
    next
      case b: False
      then have c: "\<not> c < 0x20"
        using less.prems t q by (auto split: if_splits)
      then obtain str' where "json_chars r' = Some (str', r)"
        using less.prems t q b by (auto dest: cons_char_length)
      then have "length r < length r'"
        by (rule less.hyps [rotated]) (simp add: t)
      then show ?thesis by (simp add: t)
    qed
  qed
qed

lemma json_digits_length: "json_digits s = Some (ds, r) \<Longrightarrow> length r \<le> length s"
  by (auto simp: json_digits_def length_dropWhile_le split: if_splits)

lemma json_frac_length: "json_frac s = Some (ds, r) \<Longrightarrow> length r \<le> length s"
  by (auto simp: json_frac_def split: list.splits if_splits option.splits
      dest!: json_digits_length)

lemma json_exp_length: "json_exp s = Some (ds, r) \<Longrightarrow> length r \<le> length s"
  by (auto simp: json_exp_def split: list.splits if_splits option.splits
      dest!: json_digits_length)

lemma json_unsigned_length: "json_unsigned s = Some (lx, r) \<Longrightarrow> length r < length s"
proof -
  assume a: "json_unsigned s = Some (lx, r)"
  then obtain d t where s: "s = d # t"
    by (cases s) (auto simp: json_unsigned_def)
  define s1 where "s1 = (if d = 0x30 then t else dropWhile is_digit t)"
  have s1: "length s1 \<le> length t"
    by (simp add: s1_def length_dropWhile_le)
  obtain fp s2 where f: "json_frac s1 = Some (fp, s2)"
    using a unfolding s json_unsigned_def s1_def
    by (auto simp: Let_def split: if_splits option.splits)
  obtain ep where e: "json_exp s2 = Some (ep, r)"
    using a f unfolding s json_unsigned_def s1_def
    by (auto simp: Let_def split: if_splits option.splits)
  show ?thesis
    using s1 json_frac_length [OF f] json_exp_length [OF e] by (simp add: s)
qed

lemma json_number_length: "json_number s = Some (lx, r) \<Longrightarrow> length r < length s"
  by (auto simp: json_number_def split: list.splits if_splits option.splits
      dest!: json_unsigned_length)

lemma strip_prefix_length: "strip_prefix l s = Some r \<Longrightarrow> l \<noteq> [] \<Longrightarrow> length r < length s"
proof -
  assume a: "strip_prefix l s = Some r" and l: "l \<noteq> []"
  then have "take (length l) s = l" and r: "r = drop (length l) s"
    by (auto simp: strip_prefix_def split: if_splits)
  then have "length (take (length l) s) = length l"
    by simp
  then have "length l \<le> length s"
    by simp
  then show ?thesis
    using l r by (cases l) auto
qed

lemma json_value_flat:
  assumes "c \<noteq> LBRACKET" "c \<noteq> LBRACE"
  shows "json_value (Suc a) (c # t) = json_value (Suc b) (c # t)"
  using assms by simp

lemma json_value_flat_length:
  assumes "c \<noteq> LBRACKET" "c \<noteq> LBRACE" "json_value (Suc k) (c # t) = Some (v, r)"
  shows "length r < length (c # t)"
proof -
  consider "c = DQUOTE" | "c \<noteq> DQUOTE" "c = MINUS \<or> is_digit c"
    | "c \<noteq> DQUOTE" "\<not> (c = MINUS \<or> is_digit c)"
    by blast
  then show ?thesis
  proof cases
    case 1
    then obtain str where "json_chars t = Some (str, r)"
      using assms by (auto split: option.splits)
    then show ?thesis
      using json_chars_length by fastforce
  next
    case 2
    then obtain lx where "json_number (c # t) = Some (lx, r)"
      using assms by (auto split: option.splits)
    then show ?thesis
      by (rule json_number_length)
  next
    case 3
    then have "strip_prefix (js ''true'') (c # t) = Some r
        \<or> strip_prefix (js ''false'') (c # t) = Some r
        \<or> strip_prefix (js ''null'') (c # t) = Some r"
      using assms by (auto split: option.splits)
    then show ?thesis
      by (auto dest!: strip_prefix_length simp: js_def)
  qed
qed

lemma json_value_enough_step:
  assumes e: "\<And>s vs r. json_elements k s = Some (vs, r)
                \<Longrightarrow> length r < length s \<and> json_elements (spent s r) s = Some (vs, r)"
    and ms: "\<And>s vs r. json_members k s = Some (vs, r)
                \<Longrightarrow> length r < length s \<and> json_members (spent s r) s = Some (vs, r)"
    and a: "json_value (Suc k) s = Some (v, r)"
  shows "length r < length s \<and> json_value (spent s r) s = Some (v, r)"
proof -
  obtain c t where s: "s = c # t"
    using a by (cases s) auto
  consider "c = LBRACKET" | "c = LBRACE" | "c \<noteq> LBRACKET" "c \<noteq> LBRACE"
    by blast
  then show ?thesis
  proof cases
    case 1
    obtain d r1 where skip: "skip_json_ws t = d # r1"
      using a 1 s by (cases "skip_json_ws t") auto
    note len = skip_json_ws_Cons_length [OF skip]
    show ?thesis
    proof (cases "d = RBRACKET")
      case True
      then have r: "r = r1" "v = JArray []"
        using a 1 s skip by auto
      obtain y where "spent s r = Suc y"
        using len by (cases "spent s r") (auto simp: spent_def s r)
      then show ?thesis
        using len 1 s skip True r by simp
    next
      case False
      then obtain vs where el: "json_elements k (d # r1) = Some (vs, r)" and v: "v = JArray vs"
        using a 1 s skip by (auto split: option.splits)
      from e [OF el] have *: "length r < length (d # r1)"
        "json_elements (spent (d # r1) r) (d # r1) = Some (vs, r)"
        by auto
      obtain y where y: "spent s r = Suc y" "spent (d # r1) r \<le> y"
        using len * by (intro that [of "spent s r - 1"]) (auto simp: spent_def s)
      have "json_elements y (d # r1) = Some (vs, r)"
        using *(2) y(2) by (rule json_elements_mono)
      then show ?thesis
        using len * 1 s skip False v y(1) by simp
    qed
  next
    case 2
    obtain d r1 where skip: "skip_json_ws t = d # r1"
      using a 2 s by (cases "skip_json_ws t") auto
    note len = skip_json_ws_Cons_length [OF skip]
    show ?thesis
    proof (cases "d = RBRACE")
      case True
      then have r: "r = r1" "v = JObject []"
        using a 2 s skip by auto
      obtain y where "spent s r = Suc y"
        using len by (cases "spent s r") (auto simp: spent_def s r)
      then show ?thesis
        using len 2 s skip True r by simp
    next
      case False
      then obtain vs where el: "json_members k (d # r1) = Some (vs, r)" and v: "v = JObject vs"
        using a 2 s skip by (auto split: option.splits)
      from ms [OF el] have *: "length r < length (d # r1)"
        "json_members (spent (d # r1) r) (d # r1) = Some (vs, r)"
        by auto
      obtain y where y: "spent s r = Suc y" "spent (d # r1) r \<le> y"
        using len * by (intro that [of "spent s r - 1"]) (auto simp: spent_def s)
      have "json_members y (d # r1) = Some (vs, r)"
        using *(2) y(2) by (rule json_members_mono)
      then show ?thesis
        using len * 2 s skip False v y(1) by simp
    qed
  next
    case 3
    have len: "length r < length (c # t)"
      using 3 a [unfolded s] by (rule json_value_flat_length)
    then obtain y where "spent s r = Suc y"
      by (cases "spent s r") (auto simp: spent_def s)
    then show ?thesis
      using len a s json_value_flat [OF 3, of y t k] by simp
  qed
qed

lemma json_elements_enough_step:
  assumes v: "\<And>s v r. json_value k s = Some (v, r)
                \<Longrightarrow> length r < length s \<and> json_value (spent s r) s = Some (v, r)"
    and e: "\<And>s vs r. json_elements k s = Some (vs, r)
                \<Longrightarrow> length r < length s \<and> json_elements (spent s r) s = Some (vs, r)"
    and a: "json_elements (Suc k) s = Some (vs, r)"
  shows "length r < length s \<and> json_elements (spent s r) s = Some (vs, r)"
proof -
  obtain x r0 where val: "json_value k s = Some (x, r0)"
    using a by (cases "json_value k s") auto
  from v [OF val] have v': "length r0 < length s" "json_value (spent s r0) s = Some (x, r0)"
    by auto
  obtain d r1 where skip: "skip_json_ws r0 = d # r1"
    using a val by (cases "skip_json_ws r0") auto
  note len = skip_json_ws_Cons_length [OF skip]
  show ?thesis
  proof (cases "d = RBRACKET")
    case True
    then have r: "r = r1" "vs = [x]"
      using a val skip by auto
    obtain y where y: "spent s r = Suc y" "spent s r0 \<le> y"
      using len v'(1) by (intro that [of "spent s r - 1"]) (auto simp: spent_def r)
    have "json_value y s = Some (x, r0)"
      using v'(2) y(2) by (rule json_value_mono)
    then show ?thesis
      using len v'(1) y(1) skip True r by simp
  next
    case False
    then have d: "d = COMMA"
      using a val skip by (auto split: if_splits)
    obtain ws where el: "json_elements k (skip_json_ws r1) = Some (ws, r)" and vs: "vs = x # ws"
      using a val skip d by (auto split: option.splits)
    from e [OF el] have *: "length r < length (skip_json_ws r1)"
      "json_elements (spent (skip_json_ws r1) r) (skip_json_ws r1) = Some (ws, r)"
      by auto
    have l1: "length (skip_json_ws r1) \<le> length r1"
      by (rule length_skip_json_ws)
    obtain y where y: "spent s r = Suc y" "spent s r0 \<le> y" "spent (skip_json_ws r1) r \<le> y"
      using len v'(1) * l1 by (intro that [of "spent s r - 1"]) (auto simp: spent_def)
    have "json_value y s = Some (x, r0)"
      using v'(2) y(2) by (rule json_value_mono)
    moreover have "json_elements y (skip_json_ws r1) = Some (ws, r)"
      using *(2) y(3) by (rule json_elements_mono)
    ultimately show ?thesis
      using len v'(1) *(1) l1 y(1) skip d vs by simp
  qed
qed

lemma json_members_enough_step:
  assumes v: "\<And>s v r. json_value k s = Some (v, r)
                \<Longrightarrow> length r < length s \<and> json_value (spent s r) s = Some (v, r)"
    and ms: "\<And>s vs r. json_members k s = Some (vs, r)
                \<Longrightarrow> length r < length s \<and> json_members (spent s r) s = Some (vs, r)"
    and a: "json_members (Suc k) s = Some (vs, r)"
  shows "length r < length s \<and> json_members (spent s r) s = Some (vs, r)"
proof -
  obtain q t where s: "s = q # t" and q: "q = DQUOTE"
    using a by (cases s) (auto split: if_splits)
  obtain key' r1 where chars: "json_chars t = Some (key', r1)"
    using a s q by (cases "json_chars t") auto
  note l1 = json_chars_length [OF chars]
  obtain d r2 where skip1: "skip_json_ws r1 = d # r2" and d: "d = COLON"
    using a s q chars by (cases "skip_json_ws r1") (auto split: if_splits)
  note l2 = skip_json_ws_Cons_length [OF skip1]
  have l3: "length (skip_json_ws r2) \<le> length r2"
    by (rule length_skip_json_ws)
  obtain x r3 where val: "json_value k (skip_json_ws r2) = Some (x, r3)"
    using a s q chars skip1 d by (cases "json_value k (skip_json_ws r2)") auto
  from v [OF val] have v': "length r3 < length (skip_json_ws r2)"
    "json_value (spent (skip_json_ws r2) r3) (skip_json_ws r2) = Some (x, r3)"
    by auto
  obtain e r4 where skip2: "skip_json_ws r3 = e # r4"
    using a s q chars skip1 d val by (cases "skip_json_ws r3") auto
  note l4 = skip_json_ws_Cons_length [OF skip2]
  show ?thesis
  proof (cases "e = RBRACE")
    case True
    then have r: "r = r4" "vs = [(key', x)]"
      using a s q chars skip1 d val skip2 by auto
    obtain y where y: "spent s r = Suc y" "spent (skip_json_ws r2) r3 \<le> y"
      using l1 l2 l3 l4 v'(1) by (intro that [of "spent s r - 1"]) (auto simp: spent_def r s)
    have "json_value y (skip_json_ws r2) = Some (x, r3)"
      using v'(2) y(2) by (rule json_value_mono)
    then show ?thesis
      using l1 l2 l3 l4 v'(1) y(1) s q chars skip1 d skip2 True r by simp
  next
    case False
    then have e: "e = COMMA"
      using a s q chars skip1 d val skip2 by (auto split: if_splits)
    obtain ws where el: "json_members k (skip_json_ws r4) = Some (ws, r)"
      and vs: "vs = (key', x) # ws"
      using a s q chars skip1 d val skip2 e by (auto split: option.splits)
    from ms [OF el] have *: "length r < length (skip_json_ws r4)"
      "json_members (spent (skip_json_ws r4) r) (skip_json_ws r4) = Some (ws, r)"
      by auto
    have l5: "length (skip_json_ws r4) \<le> length r4"
      by (rule length_skip_json_ws)
    obtain y where y: "spent s r = Suc y" "spent (skip_json_ws r2) r3 \<le> y"
      "spent (skip_json_ws r4) r \<le> y"
      using l1 l2 l3 l4 l5 v'(1) *(1)
      by (intro that [of "spent s r - 1"]) (auto simp: spent_def s)
    have "json_value y (skip_json_ws r2) = Some (x, r3)"
      using v'(2) y(2) by (rule json_value_mono)
    moreover have "json_members y (skip_json_ws r4) = Some (ws, r)"
      using *(2) y(3) by (rule json_members_mono)
    ultimately show ?thesis
      using l1 l2 l3 l4 l5 v'(1) *(1) y(1) s q chars skip1 d skip2 e vs by simp
  qed
qed

lemma json_fuel_enough_all:
  "(\<forall>s v r. json_value n s = Some (v, r)
      \<longrightarrow> length r < length s \<and> json_value (spent s r) s = Some (v, r))
   \<and> (\<forall>s vs r. json_elements n s = Some (vs, r)
      \<longrightarrow> length r < length s \<and> json_elements (spent s r) s = Some (vs, r))
   \<and> (\<forall>s vs r. json_members n s = Some (vs, r)
      \<longrightarrow> length r < length s \<and> json_members (spent s r) s = Some (vs, r))"
proof (induction n)
  case 0
  then show ?case by simp
next
  case (Suc k)
  have v: "length r < length s \<and> json_value (spent s r) s = Some (v, r)"
    if "json_value k s = Some (v, r)" for s v r
    using Suc that by simp
  have e: "length r < length s \<and> json_elements (spent s r) s = Some (vs, r)"
    if "json_elements k s = Some (vs, r)" for s vs r
    using Suc that by simp
  have ms: "length r < length s \<and> json_members (spent s r) s = Some (vs, r)"
    if "json_members k s = Some (vs, r)" for s vs r
    using Suc that by simp
  show ?case
    using json_value_enough_step [of k, OF e ms]
      json_elements_enough_step [of k, OF v e]
      json_members_enough_step [of k, OF v ms]
    by simp
qed

lemma JSON_parse_fuel_enough:
  assumes "json_value n (skip_json_ws s) = Some (v, r)"
  shows "json_value (2 * length s + 2) (skip_json_ws s) = Some (v, r)"
proof -
  have "json_value (spent (skip_json_ws s) r) (skip_json_ws s) = Some (v, r)"
    using json_fuel_enough_all [of n] assms by simp
  moreover have "spent (skip_json_ws s) r \<le> 2 * length s + 2"
    using length_skip_json_ws [of s] by (simp add: spent_def)
  ultimately show ?thesis
    by (rule json_value_mono)
qed

lemma JSON_parse_any_fuel:
  assumes "json_value n (skip_json_ws s) = Some (v, r)" "skip_json_ws r = []"
  shows "JSON_parse s = Some v"
  using JSON_parse_fuel_enough [OF assms(1)] assms(2) by (simp add: JSON_parse_def)

section \<open>White space and the pattern of the response\<close>

lemma json_ws_is_space: "is_json_ws c \<Longrightarrow> is_space c"
  by (auto simp: is_json_ws_def is_space_def)

lemma skip_space_append: "json_space w \<Longrightarrow> skip_space (w @ r) = skip_space r"
  by (induction w) (simp_all add: json_space_def skip_space_def json_ws_is_space)

lemma skip_space_stop: "\<not> is_space c \<Longrightarrow> skip_space (c # r) = c # r"
  by (simp add: skip_space_def)

lemma skip_json_ws_append: "json_space w \<Longrightarrow> skip_json_ws (w @ r) = skip_json_ws r"
  by (induction w) (simp_all add: json_space_def skip_json_ws_def)

lemma skip_json_ws_stop: "\<not> is_json_ws c \<Longrightarrow> skip_json_ws (c # r) = c # r"
  by (simp add: skip_json_ws_def)

lemma strip_prefix_append: "strip_prefix l (l @ r) = Some r"
  by (simp add: strip_prefix_def)

lemma not_space_simps:
  "\<not> is_space DQUOTE" "\<not> is_space COLON" "\<not> is_space LBRACKET" "\<not> is_space RBRACE"
  by (simp_all add: is_space_def)

lemma not_json_ws_simps:
  "\<not> is_json_ws DQUOTE" "\<not> is_json_ws COLON" "\<not> is_json_ws LBRACKET" "\<not> is_json_ws RBRACE"
  "\<not> is_json_ws RBRACKET" "\<not> is_json_ws COMMA" "\<not> is_json_ws LBRACE"
  by (simp_all add: is_json_ws_def)

lemma expect_hit: "expect c (c # r) = Some r"
  by (simp add: expect_def)

lemma skip_space_to: "json_space w \<Longrightarrow> \<not> is_space c \<Longrightarrow> skip_space (w @ c # r) = c # r"
  by (simp add: skip_space_append skip_space_stop)

lemma skip_json_ws_to: "json_space w \<Longrightarrow> \<not> is_json_ws c \<Longrightarrow> skip_json_ws (w @ c # r) = c # r"
  by (simp add: skip_json_ws_append skip_json_ws_stop)

lemma re_open_render:
  assumes "json_space w1" "json_space w2" "json_space w3"
  shows "re_open (render_response w1 w2 w3 w4 es @ post)
         = Some (render_entries es @ [RBRACKET] @ w4 @ [RBRACE] @ post)"
proof -
  define k' where "k' = js ''chordSuggestions'' @ [DQUOTE]"
  define body where "body = render_entries es @ [RBRACKET] @ w4 @ [RBRACE] @ post"
  have 1: "skip_space (w1 @ DQUOTE # k' @ w2 @ COLON # w3 @ LBRACKET # body)
           = (DQUOTE # k') @ w2 @ COLON # w3 @ LBRACKET # body"
    using assms(1) by (simp add: skip_space_to not_space_simps)
  have 2: "skip_space (w2 @ COLON # w3 @ LBRACKET # body) = COLON # w3 @ LBRACKET # body"
    using assms(2) by (simp add: skip_space_to not_space_simps)
  have 3: "skip_space (w3 @ LBRACKET # body) = LBRACKET # body"
    using assms(3) by (simp add: skip_space_to not_space_simps)
  have "render_response w1 w2 w3 w4 es @ post
        = LBRACE # w1 @ DQUOTE # k' @ w2 @ COLON # w3 @ LBRACKET # body"
    by (simp add: render_response_def quoted_def k'_def body_def)
  then have "re_open (render_response w1 w2 w3 w4 es @ post) = Some body"
    unfolding re_open_def k'_def [symmetric]
    by (simp only: expect_hit 1 2 3 strip_prefix_append option.case)
  then show ?thesis
    by (simp add: body_def)
qed

lemma re_close_end:
  assumes "json_space w"
  shows "re_close (RBRACKET # w @ RBRACE # post) = Some post"
  using assms by (simp add: re_close_def expect_def skip_space_append skip_space_stop not_space_simps)

lemma re_close_other: "c \<noteq> RBRACKET \<Longrightarrow> re_close (c # r) = None"
  by (simp add: re_close_def expect_def)

lemma re_lazy_body:
  assumes "RBRACKET \<notin> set body" "json_space w"
  shows "re_lazy (body @ RBRACKET # w @ RBRACE # post) = Some post"
  using assms by (induction body) (simp_all add: re_close_end re_close_other)


lemma regex_match_at:
  assumes "re_at (obj @ post) = Some post" "obj \<noteq> []"
  shows "regex_match (obj @ post) = Some obj"
proof -
  obtain c r where "obj @ post = c # r"
    using assms(2) by (cases obj) auto
  then show ?thesis
    using assms(1) by (metis regex_match.simps(2) option.simps(5) add_diff_cancel_right' append_eq_conv_conj length_append)
qed

lemma regex_match_skip:
  assumes "clear_before pre rest"
  shows "regex_match (pre @ rest) = regex_match rest"
  using assms by (induction pre) (simp_all add: re_at_def)

lemma plain_entries_no_bracket:
  "plain_entries es \<Longrightarrow> RBRACKET \<notin> set (render_entries es)"
  by (induction es rule: render_entries.induct)
     (auto simp: plain_entries_def quoted_def json_space_def plain_char_def is_json_ws_def list_all_iff)

lemma regex_match_render:
  assumes "json_space w1" "json_space w2" "json_space w3" "json_space w4" "plain_entries es"
    and "clear_before pre (render_response w1 w2 w3 w4 es @ post)"
  shows "regex_match (pre @ render_response w1 w2 w3 w4 es @ post)
         = Some (render_response w1 w2 w3 w4 es)"
proof -
  have "re_lazy (render_entries es @ RBRACKET # w4 @ RBRACE # post) = Some post"
    using assms(4,5) by (intro re_lazy_body plain_entries_no_bracket)
  then have "re_at (render_response w1 w2 w3 w4 es @ post) = Some post"
    using assms(1-3) by (simp add: re_at_def re_open_render)
  moreover have "render_response w1 w2 w3 w4 es \<noteq> []"
    by (simp add: render_response_def)
  ultimately have "regex_match (render_response w1 w2 w3 w4 es @ post) = Some (render_response w1 w2 w3 w4 es)"
    by (rule regex_match_at)
  then show ?thesis
    using assms(6) by (simp add: regex_match_skip)
qed


section \<open>Parsing a rendered response\<close>

lemma json_chars_plain:
  assumes "list_all plain_char c"
  shows "json_chars (c @ DQUOTE # r) = Some (c, r)"
  using assms by (induction c) (simp_all add: plain_char_def cons_char_def)

lemma json_value_string:
  assumes "list_all plain_char c"
  shows "json_value (Suc n) (quoted c @ r) = Some (JString c, r)"
  using assms by (simp add: quoted_def json_chars_plain)

lemma skip_to_entries:
  assumes "plain_entries (e # es)"
  shows "\<exists>a c b. e = (a, c, b) \<and> json_space a \<and> list_all plain_char c \<and> json_space b
     \<and> skip_json_ws (render_entries (e # es) @ r)
        = quoted c @ b @ (if es = [] then r else COMMA # render_entries es @ r)"
proof -
  obtain a c b where e: "e = (a, c, b)"
    by (cases e) auto
  have *: "json_space a" "list_all plain_char c" "json_space b"
    using assms by (simp_all add: e plain_entries_def)
  have "skip_json_ws (a @ quoted c @ t) = quoted c @ t" for t
    using *(1) by (simp add: quoted_def skip_json_ws_to not_json_ws_simps)
  then have "skip_json_ws (render_entries (e # es) @ r)
        = quoted c @ b @ (if es = [] then r else COMMA # render_entries es @ r)"
    by (cases es) (simp_all add: e)
  with e * show ?thesis
    by blast
qed

lemma json_elements_render:
  assumes "plain_entries es" "es \<noteq> []" "length es < n"
  shows "json_elements n (skip_json_ws (render_entries es @ RBRACKET # r))
         = Some (map JString (entry_chords es), r)"
  using assms
proof (induction es arbitrary: n)
  case Nil
  then show ?case by simp
next
  case (Cons e es)
  obtain a c b where e: "e = (a, c, b)" "json_space a" "list_all plain_char c" "json_space b"
    and skip: "skip_json_ws (render_entries (e # es) @ RBRACKET # r)
        = quoted c @ b @ (if es = [] then RBRACKET # r else COMMA # render_entries es @ RBRACKET # r)"
    using skip_to_entries [OF Cons.prems(1)] by blast
  obtain m where n: "n = Suc (Suc m)" and m: "length es \<le> m"
    using Cons.prems(3) by (cases n; cases "n - 1") auto
  show ?case
  proof (cases "es = []")
    case True
    have "json_elements n (quoted c @ b @ RBRACKET # r) = Some ([JString c], r)"
      using e by (simp add: n json_value_string skip_json_ws_to not_json_ws_simps
          del: json_value.simps)
    then show ?thesis
      unfolding skip using True e(1) by (simp add: entry_chords_def)
  next
    case False
    have pe: "plain_entries es"
      using Cons.prems(1) by (simp add: plain_entries_def)
    have "json_elements (Suc m) (skip_json_ws (render_entries es @ RBRACKET # r))
          = Some (map JString (entry_chords es), r)"
      by (rule Cons.IH [OF pe False]) (use m in simp)
    then have "json_elements n (quoted c @ b @ COMMA # render_entries es @ RBRACKET # r)
          = Some (JString c # map JString (entry_chords es), r)"
      using e by (simp add: n json_value_string skip_json_ws_to not_json_ws_simps
          del: json_value.simps)
    then show ?thesis
      unfolding skip using False e(1) by (simp add: entry_chords_def)
  qed
qed

lemma json_value_array:
  assumes "plain_entries es" "length es < k"
  shows "json_value (Suc k) (LBRACKET # render_entries es @ RBRACKET # r)
         = Some (JArray (map JString (entry_chords es)), r)"
proof (cases es)
  case Nil
  then show ?thesis
    by (simp add: skip_json_ws_stop not_json_ws_simps entry_chords_def)
next
  case (Cons e es')
  obtain c t where skip: "skip_json_ws (render_entries es @ RBRACKET # r) = DQUOTE # c @ t"
    using skip_to_entries [of e es' "RBRACKET # r"] assms(1) unfolding Cons quoted_def
    by (metis append_Cons)
  have "json_elements k (skip_json_ws (render_entries es @ RBRACKET # r))
        = Some (map JString (entry_chords es), r)"
    using assms Cons by (intro json_elements_render) simp_all
  then have "json_elements k (DQUOTE # c @ t) = Some (map JString (entry_chords es), r)"
    by (simp only: skip)
  then show ?thesis
    by (simp add: skip del: json_elements.simps)
qed

lemma key_plain: "list_all plain_char (js ''chordSuggestions'')"
  by (simp add: js_def plain_char_def)

lemma json_value_response:
  assumes "json_space w1" "json_space w2" "json_space w3" "json_space w4"
    and "plain_entries es" "length es < k"
  shows "json_value (Suc (Suc (Suc k))) (render_response w1 w2 w3 w4 es)
         = Some (JObject [(js ''chordSuggestions'', JArray (map JString (entry_chords es)))], [])"
proof -
  define arr where "arr = LBRACKET # render_entries es @ RBRACKET # w4 @ [RBRACE]"
  define key' where "key' = js ''chordSuggestions''"
  have arr: "json_value (Suc k) arr = Some (JArray (map JString (entry_chords es)), w4 @ [RBRACE])"
    unfolding arr_def using assms(5,6) by (rule json_value_array)
  have 1: "skip_json_ws (w1 @ DQUOTE # key' @ DQUOTE # w2 @ COLON # w3 @ arr)
           = DQUOTE # key' @ DQUOTE # w2 @ COLON # w3 @ arr"
    using assms(1) by (simp add: skip_json_ws_to not_json_ws_simps)
  have 2: "json_chars (key' @ DQUOTE # w2 @ COLON # w3 @ arr) = Some (key', w2 @ COLON # w3 @ arr)"
    unfolding key'_def using key_plain by (rule json_chars_plain)
  have 3: "skip_json_ws (w2 @ COLON # w3 @ arr) = COLON # w3 @ arr"
    using assms(2) by (simp add: skip_json_ws_to not_json_ws_simps)
  have 4: "skip_json_ws (w3 @ arr) = arr"
    using assms(3) by (simp add: arr_def skip_json_ws_to not_json_ws_simps)
  have 5: "skip_json_ws (w4 @ [RBRACE]) = [RBRACE]"
    using assms(4) by (simp add: skip_json_ws_to not_json_ws_simps)
  have members: "json_members (Suc (Suc k)) (DQUOTE # key' @ DQUOTE # w2 @ COLON # w3 @ arr)
        = Some ([(key', JArray (map JString (entry_chords es)))], [])"
    by (simp add: 2 3 4 arr 5 del: json_value.simps)
  have "render_response w1 w2 w3 w4 es = LBRACE # w1 @ DQUOTE # key' @ DQUOTE # w2 @ COLON # w3 @ arr"
    by (simp add: render_response_def quoted_def arr_def key'_def)
  then show ?thesis
    unfolding key'_def [symmetric]
    by (simp add: 1 members del: json_members.simps)
qed

lemma length_render_entries: "length es \<le> length (render_entries es)"
  by (induction es rule: render_entries.induct) (simp_all add: quoted_def)

lemma JSON_parse_render:
  assumes "json_space w1" "json_space w2" "json_space w3" "json_space w4" "plain_entries es"
  shows "JSON_parse (render_response w1 w2 w3 w4 es)
         = Some (JObject [(js ''chordSuggestions'', JArray (map JString (entry_chords es)))])"
proof -
  define s where "s = render_response w1 w2 w3 w4 es"
  have "length es < length s"
    using length_render_entries [of es] by (simp add: s_def render_response_def)
  then obtain k where k: "2 * length s + 2 = Suc (Suc (Suc k))" "length es < k"
    by (intro that [of "2 * length s - 1"]) auto
  have "s = LBRACE # tl s"
    by (simp add: s_def render_response_def)
  then have "skip_json_ws s = s"
    by (metis skip_json_ws_stop not_json_ws_simps(7))
  then show ?thesis
    unfolding JSON_parse_def s_def [symmetric] k(1)
    using json_value_response [OF assms k(2)]
    by (simp add: s_def skip_json_ws_def del: json_value.simps)
qed

section \<open>Chords are plain strings\<close>

lemma void_not_nullable: "void r \<Longrightarrow> \<not> nullable r"
  by (induction r) auto

lemma void_deriv: "void r \<Longrightarrow> void (deriv c r)"
  by (induction r) (auto simp: void_not_nullable)

lemma deriv_outside: "c \<notin> atoms r \<Longrightarrow> void (deriv c r)"
  by (induction r) auto

lemma atoms_deriv: "atoms (deriv c r) \<subseteq> atoms r"
  by (induction r) auto

lemma void_derivs: "void r \<Longrightarrow> \<not> nullable (foldl (\<lambda>q c. deriv c q) r s)"
  by (induction s arbitrary: r) (simp_all add: void_not_nullable void_deriv)

lemma re_matches_atoms: "re_matches r s \<Longrightarrow> set s \<subseteq> atoms r"
  unfolding re_matches_def
proof (induction s arbitrary: r)
  case Nil
  then show ?case by simp
next
  case (Cons c s)
  have "c \<in> atoms r"
  proof (rule ccontr)
    assume "c \<notin> atoms r"
    then have "void (deriv c r)"
      by (rule deriv_outside)
    then show False
      using Cons.prems void_derivs by auto
  qed
  moreover have "set s \<subseteq> atoms (deriv c r)"
    using Cons by simp
  ultimately show ?case
    using atoms_deriv [of c r] by auto
qed

lemma atoms_CHORD_PATTERN: "\<forall>c \<in> atoms CHORD_PATTERN. plain_char c"
  by (simp add: CHORD_PATTERN_def RSeqs_def RAlts_def ROpt_def RPlus_def RLit_def RDigit_def
      js_def plain_char_def)

lemma chord_plain: "re_matches CHORD_PATTERN c \<Longrightarrow> list_all plain_char c"
  using re_matches_atoms [of CHORD_PATTERN c] atoms_CHORD_PATTERN
  by (auto simp: list_all_iff)

lemma chord_entries_plain: "chord_entries es \<Longrightarrow> plain_entries es"
  by (induction es) (auto simp: chord_entries_def plain_entries_def chord_plain)

lemma check_chords_ok:
  "list_all (re_matches CHORD_PATTERN) cs \<Longrightarrow> check_chords (map JString cs) = None"
  by (induction cs) simp_all


lemma length_entry_chords: "length (entry_chords es) = length es"
  by (simp add: entry_chords_def)

lemma key_lookup: "get_chordSuggestions (JObject [(js ''chordSuggestions'', v)]) = Inr (Some v)"
  by (simp add: get_chordSuggestions_def)

lemma parse_render:
  assumes "json_space w1" "json_space w2" "json_space w3" "json_space w4" "plain_entries es"
    and "clear_before pre (render_response w1 w2 w3 w4 es @ post)"
  shows "parseChordSuggestions (pre @ render_response w1 w2 w3 w4 es @ post)
         = (if length es \<noteq> NUM_SUGGESTIONS then Inl (InvalidNumber (LNat (length es)))
            else case check_chords (map JString (entry_chords es)) of
                   Some e \<Rightarrow> Inl e
                 | None \<Rightarrow> Inr (JArray (map JString (entry_chords es))))"
  unfolding parseChordSuggestions_def
  by (simp add: regex_match_render [OF assms] JSON_parse_render [OF assms(1-5)] key_lookup
      get_length_def is_NUM_SUGGESTIONS_def iterate_def length_entry_chords)

section \<open>Facts shared by the theorems below\<close>

lemmas pattern_defs = CHORD_PATTERN_def RSeqs_def RAlts_def ROpt_def RPlus_def RLit_def RDigit_def
  re_matches_def


lemma validatePosition_inside:
  "0 \<le> position \<Longrightarrow> position < int (length (chords p)) \<Longrightarrow> validatePosition p position = Inr ()"
  by (simp add: validatePosition_def)

lemma no_brace_clear: "LBRACE \<notin> set pre \<Longrightarrow> clear_before pre rest"
  by (induction pre) (auto simp: re_open_def expect_def)


lemma chord_entries_ok:
  "chord_entries es \<Longrightarrow> list_all (re_matches CHORD_PATTERN) (entry_chords es)"
  by (induction es) (auto simp: chord_entries_def entry_chords_def)

lemma json_space_Nil: "json_space []"
  by (simp add: json_space_def)

lemma json_space_blank: "json_space [0x20]" "json_space [0x0A]" "json_space [0x0A, 0x20, 0x20]"
  by (simp_all add: json_space_def is_json_ws_def)


lemma example_spaced_ok: "chord_entries (spaced example_chords)"
  by (simp add: chord_entries_def spaced_def example_chords_def json_space_def is_json_ws_def
      pattern_defs js_def)

section \<open>The suggestion pipeline: the claims\<close>



text \<open>
  C2. Whenever the array extracted from the response (the value of \<^verbatim>\<open>chordSuggestions\<close>
  in the parsed match) has a length other than 12, \<open>parseChordSuggestions\<close> fails with
  the error \<^verbatim>\<open>Invalid number of chord suggestions\<close> that carries that length: nothing is
  cut or padded.
\<close>

theorem wrong_count_rejected:
  assumes "regex_match response = Some m" "JSON_parse m = Some parsed"
    and "get_chordSuggestions parsed = Inr (Some (JArray xs))"
    and "length xs \<noteq> NUM_SUGGESTIONS"
  shows "parseChordSuggestions response = Inl (InvalidNumber (LNat (length xs)))"
  using assms by (simp add: parseChordSuggestions_def get_length_def is_NUM_SUGGESTIONS_def)

theorem wrong_count_rejected_witness:
  \<open>parseChordSuggestions
     (js ''{"chordSuggestions":["C","G","Am","F","Dm","Em","G7","Cmaj7","Fmaj7","Am7","E7"]}'')
     = Inl (InvalidNumber (LNat 11))
   \<and> parseChordSuggestions
     (js ''{"chordSuggestions":["C","G","Am","F","Dm","Em","G7","Cmaj7","Fmaj7","Am7","E7","Bdim","D7"]}'')
     = Inl (InvalidNumber (LNat 13))\<close>
proof -
  define short where "short = compact (butlast example_chords)"
  define long where "long = compact (example_chords @ [js ''D7''])"
  have resp: \<open>js ''{"chordSuggestions":["C","G","Am","F","Dm","Em","G7","Cmaj7","Fmaj7","Am7","E7"]}''
      = [] @ render_response [] [] [] [] short @ []\<close>
    \<open>js ''{"chordSuggestions":["C","G","Am","F","Dm","Em","G7","Cmaj7","Fmaj7","Am7","E7","Bdim","D7"]}''
      = [] @ render_response [] [] [] [] long @ []\<close>
    by (simp_all add: short_def long_def render_response_def compact_def example_chords_def
        quoted_def js_def)
  have plain: "plain_entries short" "plain_entries long"
    by (simp_all add: short_def long_def plain_entries_def compact_def example_chords_def
        json_space_def plain_char_def js_def)
  have clear: "clear_before [] r" for r
    by simp
  note ws = json_space_Nil
  have len: "length (map JString (entry_chords short)) \<noteq> NUM_SUGGESTIONS"
    "length (map JString (entry_chords long)) \<noteq> NUM_SUGGESTIONS"
    by (simp_all add: short_def long_def compact_def example_chords_def entry_chords_def
        NUM_SUGGESTIONS_def)
  have "parseChordSuggestions ([] @ render_response [] [] [] [] short @ [])
        = Inl (InvalidNumber (LNat (length (map JString (entry_chords short)))))"
    by (rule wrong_count_rejected
        [OF regex_match_render [OF ws ws ws ws plain(1) clear]
          JSON_parse_render [OF ws ws ws ws plain(1)] key_lookup len(1)])
  moreover have "parseChordSuggestions ([] @ render_response [] [] [] [] long @ [])
        = Inl (InvalidNumber (LNat (length (map JString (entry_chords long)))))"
    by (rule wrong_count_rejected
        [OF regex_match_render [OF ws ws ws ws plain(2) clear]
          JSON_parse_render [OF ws ws ws ws plain(2)] key_lookup len(2)])
  ultimately show ?thesis
    unfolding resp
    by (simp add: short_def long_def compact_def example_chords_def entry_chords_def)
qed




text \<open>
  C4, as stated, fails: the first match wins. When the prose before the object
  repeats the output format of the prompt, that earlier text is what is extracted, and
  the valid object after it is never read.
\<close>

theorem embedded_response_counterexample:
  \<open>parseChordSuggestions
     (js ''The output format is {"chordSuggestions": ["list of 12 chords in standard music notation"]}. Here it is: {"chordSuggestions":["C","G","Am","F","Dm","Em","G7","Cmaj7","Fmaj7","Am7","E7","Bdim"]}'')
     = Inl (InvalidNumber (LNat 1))\<close>
proof -
  define pre where "pre = js ''The output format is ''"
  define post where \<open>post = js ''. Here it is: {"chordSuggestions":["C","G","Am","F","Dm","Em","G7","Cmaj7","Fmaj7","Am7","E7","Bdim"]}''\<close>
  define es where "es = [([] :: jsstring, js ''list of 12 chords in standard music notation'', [] :: jsstring)]"
  have resp: \<open>js ''The output format is {"chordSuggestions": ["list of 12 chords in standard music notation"]}. Here it is: {"chordSuggestions":["C","G","Am","F","Dm","Em","G7","Cmaj7","Fmaj7","Am7","E7","Bdim"]}''
      = pre @ render_response [] [] [0x20] [] es @ post\<close>
    by (simp add: pre_def post_def es_def render_response_def quoted_def js_def)
  have plain: "plain_entries es"
    by (simp add: es_def plain_entries_def json_space_def plain_char_def js_def)
  have "LBRACE \<notin> set pre"
    by (simp add: pre_def js_def)
  then have clear: "clear_before pre (render_response [] [] [0x20] [] es @ post)"
    by (rule no_brace_clear)
  show ?thesis
    unfolding resp
    by (subst parse_render [OF json_space_Nil json_space_Nil json_space_blank(1) json_space_Nil
          plain clear]) (simp add: es_def NUM_SUGGESTIONS_def)
qed

text \<open>
  C4, amended. A well-formed object of twelve conforming chords embedded in any text
  is extracted, validated and returned, whatever follows it, provided the opening of the
  pattern (\<^verbatim>\<open>{\<close>, the quoted key \<^verbatim>\<open>chordSuggestions\<close>, \<^verbatim>\<open>:\<close>, \<^verbatim>\<open>[\<close>) matches at no
  position before the object. Prose or a markdown fence without \<^verbatim>\<open>{\<close> before the
  object is such a text (\<open>no_brace_clear\<close>).
\<close>

theorem embedded_response_extracted:
  assumes "json_space w1" "json_space w2" "json_space w3" "json_space w4"
    and "chord_entries es" "length es = NUM_SUGGESTIONS"
    and "clear_before pre (render_response w1 w2 w3 w4 es @ post)"
  shows "parseChordSuggestions (pre @ render_response w1 w2 w3 w4 es @ post)
           = Inr (JArray (map JString (entry_chords es)))"
  using assms(6) check_chords_ok [OF chord_entries_ok [OF assms(5)]]
  by (subst parse_render [OF assms(1-4) chord_entries_plain [OF assms(5)] assms(7)]) simp_all

theorem embedded_response_extracted_witness:
  \<open>parseChordSuggestions
     (js ''Sure! Here are 12 chords for that slot:'' @ 0x0A # js ''```json'' @ 0x0A # js ''{''
      @ 0x0A # js ''  "chordSuggestions": [ "C", "G", "Am", "F", "Dm", "Em", "G7", "Cmaj7", "Fmaj7", "Am7", "E7", "Bdim"]''
      @ 0x0A # js ''}'' @ 0x0A # js ''```'' @ 0x0A # js ''Let me know if you want more {options}.'')
     = Inr (JArray (map JString example_chords))\<close>
proof -
  define pre where "pre = js ''Sure! Here are 12 chords for that slot:'' @ 0x0A # js ''```json'' @ [0x0A]"
  define post where "post = 0x0A # js ''```'' @ 0x0A # js ''Let me know if you want more {options}.''"
  define obj where "obj = render_response [0x0A, 0x20, 0x20] [] [0x20] [0x0A] (spaced example_chords)"
  have resp: \<open>js ''Sure! Here are 12 chords for that slot:'' @ 0x0A # js ''```json'' @ 0x0A # js ''{''
      @ 0x0A # js ''  "chordSuggestions": [ "C", "G", "Am", "F", "Dm", "Em", "G7", "Cmaj7", "Fmaj7", "Am7", "E7", "Bdim"]''
      @ 0x0A # js ''}'' @ 0x0A # js ''```'' @ 0x0A # js ''Let me know if you want more {options}.''
      = pre @ obj @ post\<close>
    by (simp add: pre_def post_def obj_def render_response_def spaced_def example_chords_def
        quoted_def js_def)
  have chords: "entry_chords (spaced example_chords) = example_chords"
    by (simp add: entry_chords_def spaced_def example_chords_def)
  have len: "length (spaced example_chords) = NUM_SUGGESTIONS"
    by (simp add: spaced_def example_chords_def NUM_SUGGESTIONS_def)
  have "LBRACE \<notin> set pre"
    by (simp add: pre_def js_def)
  then have clear: "clear_before pre (obj @ post)"
    by (rule no_brace_clear)
  show ?thesis
    unfolding resp
    using embedded_response_extracted [OF json_space_blank(3) json_space_Nil json_space_blank(1)
        json_space_blank(2) example_spaced_ok len clear [unfolded obj_def]]
    by (simp add: chords obj_def)
qed

section \<open>The progression store: the claims\<close>





text \<open>
  C7. \<open>addSlot\<close> without argument always succeeds: the sequence is one longer, the
  slots that were there are unchanged, the new last slot is empty, the key is unchanged.
  \<open>removeSlot\<close> at a valid position succeeds: the sequence is one shorter, the slots
  before the position are unchanged and each later slot has moved down by one index.
\<close>

theorem addSlot_removeSlot_length:
  "addSlot None p = (Inr (), p\<lparr>chords := chords p @ [None]\<rparr>)
   \<and> length (chords (snd (addSlot None p))) = length (chords p) + 1
   \<and> take (length (chords p)) (chords (snd (addSlot None p))) = chords p
   \<and> chords (snd (addSlot None p)) ! length (chords p) = None
   \<and> key (snd (addSlot None p)) = key p
   \<and> (0 \<le> position \<and> position < int (length (chords p)) \<longrightarrow>
        fst (removeSlot position p) = Inr ()
        \<and> length (chords (snd (removeSlot position p))) = length (chords p) - 1
        \<and> key (snd (removeSlot position p)) = key p
        \<and> (\<forall>i. i < nat position \<longrightarrow> chords (snd (removeSlot position p)) ! i = chords p ! i)
        \<and> (\<forall>i. nat position \<le> i \<and> i < length (chords p) - 1 \<longrightarrow>
              chords (snd (removeSlot position p)) ! i = chords p ! (i + 1)))"
  by (auto simp: addSlot_def removeSlot_def validatePosition_def splice_delete_def nth_append
      min_def)

theorem addSlot_removeSlot_length_witness:
  "addSlot None example_progression
     = (Inr (), example_progression\<lparr>chords := [Some (js ''Am''), Some (js ''Dm''), None, None]\<rparr>)
   \<and> removeSlot 0 example_progression
     = (Inr (), example_progression\<lparr>chords := [Some (js ''Dm''), None]\<rparr>)
   \<and> length (chords (snd (removeSlot 0 example_progression))) = 2
   \<and> chords (snd (removeSlot 0 example_progression)) ! 0 = chords example_progression ! 1
   \<and> chords (snd (removeSlot 0 example_progression)) ! 1 = chords example_progression ! 2"
  using addSlot_removeSlot_length [of example_progression 0]
  by (simp add: example_progression_def removeSlot_def validatePosition_def splice_delete_def)

text \<open>
  C8. At a valid position \<open>addChord\<close> and \<open>removeChord\<close> succeed and change the slot
  at that index only (to the chord, to empty): every other slot, the length of the
  sequence and the key are as before.
\<close>

theorem chord_write_frame:
  assumes "0 \<le> position" "position < int (length (chords p))"
  shows "fst (addChord position chord p) = Inr ()
       \<and> length (chords (snd (addChord position chord p))) = length (chords p)
       \<and> key (snd (addChord position chord p)) = key p
       \<and> chords (snd (addChord position chord p)) ! nat position = Some chord
       \<and> (\<forall>i. i < length (chords p) \<and> i \<noteq> nat position \<longrightarrow>
             chords (snd (addChord position chord p)) ! i = chords p ! i)
       \<and> fst (removeChord position p) = Inr ()
       \<and> length (chords (snd (removeChord position p))) = length (chords p)
       \<and> key (snd (removeChord position p)) = key p
       \<and> chords (snd (removeChord position p)) ! nat position = None
       \<and> (\<forall>i. i < length (chords p) \<and> i \<noteq> nat position \<longrightarrow>
             chords (snd (removeChord position p)) ! i = chords p ! i)"
  using assms validatePosition_inside [OF assms]
  by (simp add: addChord_def removeChord_def)

theorem chord_write_frame_witness:
  "addChord 1 (js ''G'') example_progression
     = (Inr (), example_progression\<lparr>chords := [Some (js ''Am''), Some (js ''G''), None]\<rparr>)
   \<and> removeChord 1 example_progression
     = (Inr (), example_progression\<lparr>chords := [Some (js ''Am''), None, None]\<rparr>)
   \<and> chords (snd (addChord 1 (js ''G'') example_progression)) ! 0 = chords example_progression ! 0
   \<and> chords (snd (addChord 1 (js ''G'') example_progression)) ! 2 = chords example_progression ! 2"
  using chord_write_frame [of 1 example_progression "js ''G''"]
  by (simp add: example_progression_def addChord_def removeChord_def validatePosition_def)

text \<open>
  C9. Duplicates are not rejected: a well-formed response of twelve conforming chords
  that are not all distinct is returned as it stands.
\<close>

theorem duplicates_accepted:
  assumes "json_space w1" "json_space w2" "json_space w3" "json_space w4"
    and "chord_entries es" "length es = NUM_SUGGESTIONS"
    and "\<not> distinct (entry_chords es)"
  shows "parseChordSuggestions (render_response w1 w2 w3 w4 es)
           = Inr (JArray (map JString (entry_chords es)))"
proof -
  have "parseChordSuggestions ([] @ render_response w1 w2 w3 w4 es @ [])
        = Inr (JArray (map JString (entry_chords es)))"
    using assms(6) check_chords_ok [OF chord_entries_ok [OF assms(5)]]
    by (subst parse_render [OF assms(1-4) chord_entries_plain [OF assms(5)]]) simp_all
  then show ?thesis
    by simp
qed

theorem duplicates_accepted_witness:
  \<open>parseChordSuggestions
     (js ''{"chordSuggestions":["Am","Am","Am","Am","Am","Am","Am","Am","Am","Am","Am","Am"]}'')
     = Inr (JArray (replicate 12 (JString (js ''Am''))))\<close>
proof -
  define es where "es = compact (replicate 12 (js ''Am''))"
  have resp: \<open>js ''{"chordSuggestions":["Am","Am","Am","Am","Am","Am","Am","Am","Am","Am","Am","Am"]}''
      = render_response [] [] [] [] es\<close>
    by (simp add: es_def render_response_def compact_def quoted_def js_def eval_nat_numeral)
  have ok: "chord_entries es"
    by (simp add: es_def chord_entries_def compact_def json_space_def pattern_defs js_def
        eval_nat_numeral)
  have len: "length es = NUM_SUGGESTIONS"
    by (simp add: es_def compact_def NUM_SUGGESTIONS_def)
  have dup: "\<not> distinct (entry_chords es)"
    by (simp add: es_def compact_def entry_chords_def eval_nat_numeral)
  note ws = json_space_Nil
  show ?thesis
    unfolding resp
    using duplicates_accepted [OF ws ws ws ws ok len dup]
    by (simp add: es_def compact_def entry_chords_def eval_nat_numeral)
qed



end
